theory Spec2Isabelle
  imports Main "HOL-Library.Multiset" "HOL-Library.Sublist"
begin

section \<open>First-Fit-Decreasing cutting-stock packer (Verschnittoptimierung.py)\<close>

text \<open>
  The embedding follows \<^verbatim>\<open>first_fit_decreasing(stock_length, demands)\<close>.
  Its only caller, \<^verbatim>\<open>main\<close>, obtains every number from
  \<^verbatim>\<open>st.number_input\<close> with integer bounds, so lengths and quantities are
  Python integers: they are modelled as \<^typ>\<open>int\<close> and all arithmetic is exact.
  A demand is the pair \<^verbatim>\<open>(eff_length, qty)\<close>; a part instance is the pair
  \<^verbatim>\<open>(part_length, part_type)\<close> appended to \<^verbatim>\<open>items\<close>, the second
  component being the index of the demand it comes from.
\<close>

type_synonym demand = "int \<times> int"
type_synonym part = "int \<times> nat"

text \<open>The dictionary that the code appends to \<^verbatim>\<open>rods\<close>.\<close>

record rod =
  rod_id :: nat
  used_length :: int
  leftover :: int
  parts :: "part list"

subsection \<open>Step 1: listing all cuts\<close>

text \<open>
  \<^verbatim>\<open>for i, (eff_length, qty) in enumerate(demands): for _ in range(qty): items.append((eff_length, i))\<close>.
  \<^verbatim>\<open>range(qty)\<close> is empty for \<^verbatim>\<open>qty <= 0\<close>, which is what
  \<^term>\<open>nat qty\<close> copies give.
\<close>

definition expand_demand :: "nat \<times> demand \<Rightarrow> part list" where
  "expand_demand = (\<lambda>(i, (eff_length, qty)). replicate (nat qty) (eff_length, i))"

definition expand :: "demand list \<Rightarrow> part list" where
  "expand demands = concat (map expand_demand (enumerate 0 demands))"

subsection \<open>Step 2: sorting in descending order\<close>

text \<open>
  \<^verbatim>\<open>items.sort(key=lambda x: x[0], reverse=True)\<close>. Python's sort is stable, and
  with \<^verbatim>\<open>reverse=True\<close> it reverses the list, sorts it stably in ascending
  order of the key and reverses the outcome, so that elements with equal keys keep
  their original relative order.
\<close>

definition sort_reverse :: "('a \<Rightarrow> 'k::linorder) \<Rightarrow> 'a list \<Rightarrow> 'a list" where
  "sort_reverse key xs = rev (sort_key key (rev xs))"

subsection \<open>Steps 3 and 4: first fit\<close>

text \<open>The three assignments of the inner loop body, applied to the rod that fits.\<close>

definition add_part :: "int \<Rightarrow> part \<Rightarrow> rod \<Rightarrow> rod" where
  "add_part stock_length p r =
     r\<lparr>parts := parts r @ [p],
       used_length := used_length r + fst p,
       leftover := stock_length - (used_length r + fst p)\<rparr>"

text \<open>
  The inner loop \<^verbatim>\<open>for rod in rods\<close>: it stops at the first rod whose leftover
  is at least the part length (\<^verbatim>\<open>placed = True; break\<close>) and returns the updated
  list; \<^term>\<open>None\<close> is the loop running to its end with \<^verbatim>\<open>placed\<close> still
  false.
\<close>

fun first_fit :: "int \<Rightarrow> part \<Rightarrow> rod list \<Rightarrow> rod list option" where
  "first_fit stock_length p [] = None"
| "first_fit stock_length p (r # rs) =
     (if leftover r \<ge> fst p then Some (add_part stock_length p r # rs)
      else map_option ((#) r) (first_fit stock_length p rs))"

text \<open>The dictionary appended under \<^verbatim>\<open>if not placed\<close>.\<close>

definition new_rod :: "int \<Rightarrow> part \<Rightarrow> rod list \<Rightarrow> rod" where
  "new_rod stock_length p rods =
     \<lparr>rod_id = length rods + 1, used_length = fst p,
      leftover = stock_length - fst p, parts = [p]\<rparr>"

text \<open>One iteration of the outer loop \<^verbatim>\<open>for part_length, part_type in items\<close>.\<close>

definition place :: "int \<Rightarrow> rod list \<Rightarrow> part \<Rightarrow> rod list" where
  "place stock_length rods p =
     (case first_fit stock_length p rods of
        Some rods' \<Rightarrow> rods'
      | None \<Rightarrow> rods @ [new_rod stock_length p rods])"

text \<open>The outer loop, started from \<^verbatim>\<open>rods = []\<close>.\<close>

definition pack :: "int \<Rightarrow> part list \<Rightarrow> rod list" where
  "pack stock_length items = foldl (place stock_length) [] items"

text \<open>Steps 1 to 4 together: the value of \<^verbatim>\<open>rods\<close> when step 5 begins.\<close>

definition pack_demands :: "int \<Rightarrow> demand list \<Rightarrow> rod list" where
  "pack_demands stock_length demands = pack stock_length (sort_reverse fst (expand demands))"

subsection \<open>Step 5: the result table\<close>

text \<open>
  \<^verbatim>\<open>part_count\<close> is a Python dictionary, which iterates in insertion order: an
  association list in which a new key goes to the end and an existing key keeps its
  place. Its keys are the pairs \<^verbatim>\<open>(idx, length)\<close>. Reading a key that is not
  there raises \<^verbatim>\<open>KeyError\<close>, the one exception that a statement of the function
  can raise on integer input; it is a value of the model.
\<close>

datatype error = KeyError

type_synonym part_count = "((nat \<times> int) \<times> nat) list"

text \<open>\<^verbatim>\<open>d[k] = v\<close>.\<close>

fun dict_set :: "'k \<Rightarrow> 'v \<Rightarrow> ('k \<times> 'v) list \<Rightarrow> ('k \<times> 'v) list" where
  "dict_set k v [] = [(k, v)]"
| "dict_set k v (kv # kvs) = (if fst kv = k then (k, v) # kvs else kv # dict_set k v kvs)"

text \<open>\<^verbatim>\<open>d[k]\<close> as an expression.\<close>

definition dict_get :: "('k \<times> 'v) list \<Rightarrow> 'k \<Rightarrow> error + 'v" where
  "dict_get d k = (case map_of d k of None \<Rightarrow> Inl KeyError | Some v \<Rightarrow> Inr v)"

text \<open>
  The body of \<^verbatim>\<open>for (length, idx) in rod["parts"]\<close>:
  \<^verbatim>\<open>if (idx, length) not in part_count: part_count[(idx, length)] = 0\<close> followed by
  \<^verbatim>\<open>part_count[(idx, length)] += 1\<close>, which reads the entry and writes it back
  incremented.
\<close>

definition count_part :: "part_count \<Rightarrow> part \<Rightarrow> error + part_count" where
  "count_part pc = (\<lambda>(length, idx).
     let pc' = (if map_of pc (idx, length) = None then dict_set (idx, length) 0 pc else pc)
     in case dict_get pc' (idx, length) of
          Inl e \<Rightarrow> Inl e
        | Inr c \<Rightarrow> Inr (dict_set (idx, length) (c + 1) pc'))"

text \<open>The loop over the parts of one rod; an exception ends it.\<close>

fun count_parts :: "part_count \<Rightarrow> part list \<Rightarrow> error + part_count" where
  "count_parts pc [] = Inr pc"
| "count_parts pc (p # ps) =
     (case count_part pc p of Inl e \<Rightarrow> Inl e | Inr pc' \<Rightarrow> count_parts pc' ps)"

text \<open>\<^verbatim>\<open>str\<close> of a non-negative and of an arbitrary integer, in decimal.\<close>

fun str_nat :: "nat \<Rightarrow> string" where
  "str_nat n =
     (if n < 10 then [char_of (48 + n)]
      else str_nat (n div 10) @ [char_of (48 + n mod 10)])"

definition str_int :: "int \<Rightarrow> string" where
  "str_int i = (if i < 0 then CHR ''-'' # str_nat (nat (- i)) else str_nat (nat i))"

text \<open>\<^verbatim>\<open>int(length)\<close> on a Python integer returns it unchanged.\<close>

definition int_of_length :: "int \<Rightarrow> int" where
  "int_of_length l = l"

text \<open>
  The multiplication sign U+00D7 of the format string; a \<^typ>\<open>string\<close> holds bytes,
  so it is written as its two bytes in UTF-8.
\<close>

definition times_sign :: string where
  "times_sign = [CHR 0xC3, CHR 0x97]"

text \<open>The f-string \<^verbatim>\<open>f"{count} <U+00D7> {int(length)}"\<close>.\<close>

definition format_group :: "(nat \<times> int) \<times> nat \<Rightarrow> string" where
  "format_group = (\<lambda>((idx, length), count).
     str_nat count @ '' '' @ times_sign @ '' '' @ str_int (int_of_length length))"

text \<open>\<^verbatim>\<open>sep.join(strs)\<close>.\<close>

fun join :: "string \<Rightarrow> string list \<Rightarrow> string" where
  "join sep [] = []"
| "join sep [s] = s"
| "join sep (s # t # ts) = s @ sep @ join sep (t # ts)"

text \<open>\<^verbatim>\<open>parts_str\<close>, from the finished dictionary in its iteration order.\<close>

definition parts_str :: "part_count \<Rightarrow> string" where
  "parts_str pc = join '', '' (map format_group pc)"

text \<open>
  One dictionary of \<^verbatim>\<open>result_data\<close>; the fields are the columns
  \<^verbatim>\<open>Stange #\<close>, \<^verbatim>\<open>Verbrauchte Laenge\<close>, \<^verbatim>\<open>Rest\<close> and
  \<^verbatim>\<open>Teile (Anzahl x Effektivlaenge)\<close> of the data frame.
\<close>

record row =
  stange :: nat
  verbrauchte_laenge :: int
  rest :: int
  teile :: string

text \<open>The body of \<^verbatim>\<open>for rod in rods\<close> in step 5.\<close>

definition result_row :: "rod \<Rightarrow> error + row" where
  "result_row r =
     (case count_parts [] (parts r) of
        Inl e \<Rightarrow> Inl e
      | Inr pc \<Rightarrow> Inr \<lparr>stange = rod_id r, verbrauchte_laenge = used_length r,
                        rest = leftover r, teile = parts_str pc\<rparr>)"

text \<open>The loop that fills \<^verbatim>\<open>result_data\<close>, one row per rod, in the order of the rods.\<close>

fun result_data :: "rod list \<Rightarrow> error + row list" where
  "result_data [] = Inr []"
| "result_data (r # rs) =
     (case result_row r of
        Inl e \<Rightarrow> Inl e
      | Inr x \<Rightarrow> (case result_data rs of Inl e \<Rightarrow> Inl e | Inr xs \<Rightarrow> Inr (x # xs)))"

text \<open>
  The function itself. The data frame is the list of its rows; \<^term>\<open>Inl\<close> is an
  exception leaving the function.
\<close>

definition first_fit_decreasing :: "int \<Rightarrow> demand list \<Rightarrow> error + row list" where
  "first_fit_decreasing stock_length demands = result_data (pack_demands stock_length demands)"

subsection \<open>The parts summary in the words of the specification\<close>

text \<open>The distinct elements of a list, in the order in which they are first met.\<close>

fun first_occurrences :: "'a list \<Rightarrow> 'a list" where
  "first_occurrences [] = []"
| "first_occurrences (x # xs) = x # removeAll x (first_occurrences xs)"

text \<open>
  The groups of the parts of a rod: one group per pair of demand index and length, in
  first-encountered order, each with the number of parts that have this pair.
\<close>

definition part_groups :: "part list \<Rightarrow> part_count" where
  "part_groups ps =
     (let keys = map (\<lambda>(length, idx). (idx, length)) ps
      in map (\<lambda>k. (k, count_list keys k)) (first_occurrences keys))"

text \<open>
  The row of a rod: its sequence number, used length and leftover, and its groups, each
  written as count, multiplication sign and length, separated by a comma and a space.
\<close>

definition summary_row :: "rod \<Rightarrow> row" where
  "summary_row r =
     \<lparr>stange = rod_id r, verbrauchte_laenge = used_length r, rest = leftover r,
      teile = join '', '' (map (\<lambda>((idx, length), count).
                 str_nat count @ '' '' @ times_sign @ '' '' @ str_int length) (part_groups (parts r)))\<rparr>"

section \<open>Properties\<close>

subsection \<open>The inner loop and one placement\<close>

lemma first_fit_None: "first_fit stock p rods = None \<longleftrightarrow> (\<forall>r\<in>set rods. leftover r < fst p)"
  by (induction rods) auto

lemma first_fit_Some:
  "first_fit stock p rods = Some rods' \<Longrightarrow>
     \<exists>as r bs. rods = as @ r # bs \<and> (\<forall>a\<in>set as. leftover a < fst p) \<and> fst p \<le> leftover r
        \<and> rods' = as @ add_part stock p r # bs"
proof (induction rods arbitrary: rods')
  case Nil
  then show ?case by simp
next
  case (Cons x xs)
  show ?case
  proof (cases "fst p \<le> leftover x")
    case True
    with Cons.prems have "rods' = add_part stock p x # xs" by simp
    with True have "x # xs = [] @ x # xs \<and> (\<forall>a\<in>set []. leftover a < fst p) \<and> fst p \<le> leftover x
        \<and> rods' = [] @ add_part stock p x # xs" by simp
    then show ?thesis by blast
  next
    case False
    with Cons.prems obtain ys where ys: "first_fit stock p xs = Some ys" and r: "rods' = x # ys"
      by auto
    from Cons.IH[OF ys] obtain as r bs where
      d: "xs = as @ r # bs" "\<forall>a\<in>set as. leftover a < fst p" "fst p \<le> leftover r"
         "ys = as @ add_part stock p r # bs" by blast
    with False r have "x # xs = (x # as) @ r # bs \<and> (\<forall>a\<in>set (x # as). leftover a < fst p) \<and> fst p \<le> leftover r
        \<and> rods' = (x # as) @ add_part stock p r # bs" by simp
    then show ?thesis by blast
  qed
qed

lemma place_cases:
  obtains (new) "\<forall>r\<in>set rods. leftover r < fst p" "place stock rods p = rods @ [new_rod stock p rods]"
  | (fit) as r bs where "rods = as @ r # bs" "\<forall>a\<in>set as. leftover a < fst p" "fst p \<le> leftover r"
        "place stock rods p = as @ add_part stock p r # bs"
proof (cases "first_fit stock p rods")
  case None
  then have "\<forall>r\<in>set rods. leftover r < fst p" by (simp add: first_fit_None)
  moreover from None have "place stock rods p = rods @ [new_rod stock p rods]" by (simp add: place_def)
  ultimately show ?thesis by (rule new)
next
  case (Some ys)
  from first_fit_Some[OF Some] obtain as r bs where
    "rods = as @ r # bs" "\<forall>a\<in>set as. leftover a < fst p" "fst p \<le> leftover r"
    "ys = as @ add_part stock p r # bs" by blast
  moreover from Some have "place stock rods p = ys" by (simp add: place_def)
  ultimately show ?thesis using fit by simp
qed

subsection \<open>The packing pass\<close>

lemma pack_Nil: "pack stock [] = []"
  by (simp add: pack_def)

lemma pack_snoc: "pack stock (items @ [p]) = place stock (pack stock items) p"
  by (simp add: pack_def)

lemma parts_add_part: "parts (add_part stock p r) = parts r @ [p]"
  by (simp add: add_part_def)


lemma leftover_add_part: "leftover (add_part stock p r) = stock - (used_length r + fst p)"
  by (simp add: add_part_def)

lemma rod_id_add_part: "rod_id (add_part stock p r) = rod_id r"
  by (simp add: add_part_def)

lemma mset_parts_place:
  "mset (concat (map parts (place stock rods p))) = add_mset p (mset (concat (map parts rods)))"
  by (cases rule: place_cases[of rods p stock]) (simp_all add: new_rod_def parts_add_part)


lemma mset_parts_pack: "mset (concat (map parts (pack stock items))) = mset items"
  by (induction items rule: rev_induct) (simp_all add: pack_Nil pack_snoc mset_parts_place)


lemma mset_sort_reverse: "mset (sort_reverse key xs) = mset xs"
  by (simp add: sort_reverse_def)

subsection \<open>Expansion of the demands\<close>

lemma length_expand_enum:
  "length (concat (map expand_demand (enumerate n ds))) = (\<Sum>d\<leftarrow>ds. nat (snd d))"
  by (induction ds arbitrary: n) (simp_all add: expand_demand_def split: prod.splits)



lemma snd_expand_enum:
  "p \<in> set (concat (map expand_demand (enumerate n ds))) \<Longrightarrow> n \<le> snd p"
  by (induction ds arbitrary: n) (fastforce simp: expand_demand_def split: prod.splits)+

lemma sorted_expand_enum:
  "sorted (map snd (concat (map expand_demand (enumerate n ds))))"
proof (induction ds arbitrary: n)
  case Nil
  then show ?case by simp
next
  case (Cons d ds)
  have "\<forall>x\<in>set (expand_demand (n, d)). \<forall>y\<in>set (concat (map expand_demand (enumerate (Suc n) ds))). snd x \<le> snd y"
    using snd_expand_enum[of _ "Suc n" ds] by (fastforce simp: expand_demand_def split: prod.splits)
  moreover have "sorted (map snd (expand_demand (n, d)))"
    by (simp add: expand_demand_def sorted_replicate split: prod.splits)
  ultimately show ?case using Cons.IH[of "Suc n"]
    by (simp add: sorted_append)
qed

subsection \<open>Conservation\<close>






subsection \<open>Bookkeeping and capacity\<close>

lemma set_sort_reverse: "set (sort_reverse key xs) = set xs"
  by (simp add: sort_reverse_def)









subsection \<open>The first-fit rule\<close>

lemma place_fit_or_new:
  "(\<exists>i<length rods. fst p \<le> leftover (rods ! i) \<and> (\<forall>j<i. leftover (rods ! j) < fst p)
        \<and> place stock rods p = rods[i := add_part stock p (rods ! i)])
   \<or> ((\<forall>r\<in>set rods. leftover r < fst p) \<and> place stock rods p = rods @ [new_rod stock p rods])"
proof (cases rule: place_cases[of rods p stock])
  case new
  then show ?thesis by blast
next
  case (fit as r bs)
  let ?i = "length as"
  have "?i < length rods" "rods ! ?i = r"
    using fit(1) by simp_all
  moreover have "\<forall>j<?i. leftover (rods ! j) < fst p"
    using fit(1,2) by (simp add: nth_append)
  moreover have "place stock rods p = rods[?i := add_part stock p (rods ! ?i)]"
    using fit(1,4) by simp
  ultimately show ?thesis using fit(3) by blast
qed

lemma length_place:
  "length (place stock rods p) = (if \<forall>r\<in>set rods. leftover r < fst p then length rods + 1 else length rods)"
proof (cases rule: place_cases[of rods p stock])
  case new
  then show ?thesis by simp
next
  case (fit as r bs)
  then have "\<not> (\<forall>r\<in>set rods. leftover r < fst p)" by auto
  with fit show ?thesis by simp
qed

lemma pack_take_Suc:
  "n < length items \<Longrightarrow> pack stock (take (Suc n) items) = place stock (pack stock (take n items)) (items ! n)"
  by (simp add: take_Suc_conv_app_nth pack_snoc)

text \<open>
  C3 (first-fit placement rule). Let \<open>rods\<close> be the rods after the first \<open>n\<close> parts of
  the sorted list and \<open>p\<close> the next part. Placing \<open>p\<close> either changes exactly the first
  rod, in creation order, whose leftover is at least the length of \<open>p\<close> (it gets \<open>p\<close>
  appended, its used length raised by the length of \<open>p\<close> and its leftover recomputed),
  or, when no rod has such a leftover, appends a new rod that holds only \<open>p\<close>, has the
  next sequence number and has the leftover stock length minus the length of \<open>p\<close>. The
  number of rods grows, by one, if and only if no existing rod has a leftover of at
  least the length of \<open>p\<close>. The pass starts from no rods and ends in the result.
\<close>

theorem first_fit_rule:
  assumes "n < length (sort_reverse fst (expand demands))"
  shows "let items = sort_reverse fst (expand demands);
             rods = pack stock_length (take n items);
             p = items ! n;
             rods' = pack stock_length (take (Suc n) items)
         in ((\<exists>i<length rods. fst p \<le> leftover (rods ! i) \<and> (\<forall>j<i. leftover (rods ! j) < fst p)
                \<and> rods' = rods[i := (rods ! i)\<lparr>parts := parts (rods ! i) @ [p],
                                               used_length := used_length (rods ! i) + fst p,
                                               leftover := stock_length - (used_length (rods ! i) + fst p)\<rparr>])
              \<or> ((\<forall>r\<in>set rods. leftover r < fst p)
                \<and> rods' = rods @ [\<lparr>rod_id = length rods + 1, used_length = fst p,
                                    leftover = stock_length - fst p, parts = [p]\<rparr>]))
          \<and> (length rods' = length rods + 1 \<longleftrightarrow> (\<forall>r\<in>set rods. leftover r < fst p))
          \<and> (length rods' = length rods \<longleftrightarrow> (\<exists>r\<in>set rods. fst p \<le> leftover r))
          \<and> pack stock_length (take 0 items) = []
          \<and> pack stock_length (take (length items) items) = pack_demands stock_length demands"
proof -
  let ?items = "sort_reverse fst (expand demands)"
  let ?rods = "pack stock_length (take n ?items)"
  let ?p = "?items ! n"
  have step: "pack stock_length (take (Suc n) ?items) = place stock_length ?rods ?p"
    using assms by (rule pack_take_Suc)
  have "(\<exists>i<length ?rods. fst ?p \<le> leftover (?rods ! i) \<and> (\<forall>j<i. leftover (?rods ! j) < fst ?p)
                \<and> place stock_length ?rods ?p = ?rods[i := (?rods ! i)\<lparr>parts := parts (?rods ! i) @ [?p],
                                               used_length := used_length (?rods ! i) + fst ?p,
                                               leftover := stock_length - (used_length (?rods ! i) + fst ?p)\<rparr>])
              \<or> ((\<forall>r\<in>set ?rods. leftover r < fst ?p)
                \<and> place stock_length ?rods ?p = ?rods @ [\<lparr>rod_id = length ?rods + 1, used_length = fst ?p,
                                    leftover = stock_length - fst ?p, parts = [?p]\<rparr>])"
    using place_fit_or_new[of ?rods ?p stock_length] unfolding add_part_def new_rod_def .
  moreover have "length (place stock_length ?rods ?p) = length ?rods + 1 \<longleftrightarrow> (\<forall>r\<in>set ?rods. leftover r < fst ?p)"
    by (simp add: length_place)
  moreover have "length (place stock_length ?rods ?p) = length ?rods \<longleftrightarrow> (\<exists>r\<in>set ?rods. fst ?p \<le> leftover r)"
    by (auto simp: length_place not_less)
  moreover have "pack stock_length (take 0 ?items) = []"
    by (simp add: pack_Nil)
  moreover have "pack stock_length (take (length ?items) ?items) = pack_demands stock_length demands"
    by (simp add: pack_demands_def)
  ultimately show ?thesis unfolding Let_def step by blast
qed

theorem first_fit_rule_witness:
  "1 < length (sort_reverse fst (expand [(2502, 1), (2502, 1)]))
   \<and> length (pack 5000 (take 1 (sort_reverse fst (expand [(2502, 1), (2502, 1)])))) = 1
   \<and> length (pack 5000 (take 2 (sort_reverse fst (expand [(2502, 1), (2502, 1)])))) = 2"
proof -
  define items where "items = sort_reverse fst (expand [(2502, 1), (2502, 1)])"
  have h: "1 < length (sort_reverse fst (expand [(2502, 1), (2502, 1)]))"
    by code_simp
  have one: "length (pack 5000 (take 1 items)) = 1"
    unfolding items_def by code_simp
  have none: "\<forall>r\<in>set (pack 5000 (take 1 items)). leftover r < fst (items ! 1)"
    unfolding items_def by code_simp
  from first_fit_rule[OF h, of 5000]
  have "length (pack 5000 (take (Suc 1) items)) = length (pack 5000 (take 1 items)) + 1
          \<longleftrightarrow> (\<forall>r\<in>set (pack 5000 (take 1 items)). leftover r < fst (items ! 1))"
    unfolding Let_def items_def by blast
  with none one have "length (pack 5000 (take 2 items)) = 2"
    by (simp add: numeral_2_eq_2)
  with h one show ?thesis unfolding items_def by blast
qed

subsection \<open>The sort\<close>

lemma sort_reverse_descending:
  "sorted_wrt (\<lambda>a b. key b \<le> key a) (sort_reverse key xs)"
proof -
  have "sorted (map key (sort_key key (rev xs)))" by simp
  then have "sorted_wrt (\<lambda>a b. key a \<le> key b) (sort_key key (rev xs))"
    by (simp add: sorted_wrt_map)
  then show ?thesis by (simp add: sort_reverse_def sorted_wrt_rev)
qed

lemma sort_reverse_stable:
  "filter (\<lambda>x. key x = k) (sort_reverse key xs) = filter (\<lambda>x. key x = k) xs"
proof -
  have "filter (\<lambda>x. key x = k) (sort_reverse key xs)
      = rev (filter (\<lambda>x. key x = k) (sort_key key (rev xs)))"
    by (simp add: sort_reverse_def rev_filter)
  also have "\<dots> = rev (filter (\<lambda>x. key x = k) (rev xs))"
    by (simp only: sort_key_stable)
  also have "\<dots> = filter (\<lambda>x. key x = k) xs"
    by (simp add: rev_filter)
  finally show ?thesis .
qed

lemma expand_enum_index:
  "concat (map expand_demand (enumerate n ds)) =
     concat (map (\<lambda>i. replicate (nat (snd (ds ! i))) (fst (ds ! i), n + i)) [0..<length ds])"
proof (induction ds arbitrary: n)
  case Nil
  then show ?case by simp
next
  case (Cons d ds)
  let ?f = "\<lambda>i. replicate (nat (snd ((d # ds) ! i))) (fst ((d # ds) ! i), n + i)"
  have upt: "[0..<length (d # ds)] = 0 # map Suc [0..<length ds]"
    by (simp add: upt_conv_Cons map_Suc_upt del: upt_Suc)
  have "concat (map expand_demand (enumerate n (d # ds)))
      = replicate (nat (snd d)) (fst d, n) @ concat (map expand_demand (enumerate (Suc n) ds))"
    by (simp add: expand_demand_def split: prod.splits)
  also have "\<dots> = ?f 0 @ concat (map (?f \<circ> Suc) [0..<length ds])"
    by (simp add: Cons.IH[of "Suc n"] comp_def)
  also have "\<dots> = concat (map ?f [0..<length (d # ds)])"
    unfolding upt by simp
  finally show ?case .
qed

lemma expand_index:
  "expand demands =
     concat (map (\<lambda>i. replicate (nat (snd (demands ! i))) (fst (demands ! i), i)) [0..<length demands])"
  using expand_enum_index[of 0 demands] by (simp add: expand_def)

text \<open>
  C5 (stable descending sort). The expansion lists the demands in index order, each
  with as many copies as its quantity. The list that the packing pass runs over is a
  rearrangement of the expansion, is in descending order of effective length, and holds
  the parts of any one length in the order the expansion has them. The pass consumes
  this list from the front: after \<open>n\<close> placements the rods hold exactly its first \<open>n\<close>
  parts. The order is a function of the demands alone.
\<close>

theorem stable_descending_sort:
  "expand demands =
     concat (map (\<lambda>i. replicate (nat (snd (demands ! i))) (fst (demands ! i), i)) [0..<length demands])
   \<and> mset (sort_reverse fst (expand demands)) = mset (expand demands)
   \<and> sorted_wrt (\<lambda>a b. fst b \<le> fst a) (sort_reverse fst (expand demands))
   \<and> (\<forall>k. filter (\<lambda>x. fst x = k) (sort_reverse fst (expand demands)) = filter (\<lambda>x. fst x = k) (expand demands))
   \<and> (\<forall>k. sorted (map snd (filter (\<lambda>x. fst x = k) (sort_reverse fst (expand demands)))))
   \<and> (\<forall>n. mset (concat (map parts (pack stock_length (take n (sort_reverse fst (expand demands))))))
          = mset (take n (sort_reverse fst (expand demands))))
   \<and> pack_demands stock_length demands = foldl (place stock_length) [] (sort_reverse fst (expand demands))"
proof -
  have "sorted (map snd (filter (\<lambda>x. fst x = k) (expand demands)))" for k
  proof -
    have "sorted (map snd (expand demands))"
      unfolding expand_def by (rule sorted_expand_enum)
    then have "sorted_wrt (\<lambda>a b. snd a \<le> snd b) (expand demands)"
      by (simp add: sorted_wrt_map)
    then have "sorted_wrt (\<lambda>a b. snd a \<le> snd b) (filter (\<lambda>x. fst x = k) (expand demands))"
      by (rule sorted_wrt_filter)
    then show ?thesis by (simp add: sorted_wrt_map)
  qed
  then have a: "\<forall>k. sorted (map snd (filter (\<lambda>x. fst x = k) (sort_reverse fst (expand demands))))"
    by (simp only: sort_reverse_stable) simp
  have b: "\<forall>k. filter (\<lambda>x. fst x = k) (sort_reverse fst (expand demands)) = filter (\<lambda>x. fst x = k) (expand demands)"
    by (simp add: sort_reverse_stable)
  have c: "\<forall>n. mset (concat (map parts (pack stock_length (take n (sort_reverse fst (expand demands))))))
          = mset (take n (sort_reverse fst (expand demands)))"
    by (simp add: mset_parts_pack)
  have d: "pack_demands stock_length demands = foldl (place stock_length) [] (sort_reverse fst (expand demands))"
    by (simp add: pack_demands_def pack_def)
  from expand_index[of demands] mset_sort_reverse[of fst "expand demands"]
    sort_reverse_descending[of fst "expand demands"] b a c d
  show ?thesis by blast
qed

theorem stable_descending_sort_witness:
  "sort_reverse fst (expand [(1482, 2), (2000, 1), (1482, 1), (2000, 2)])
     = [(2000, 1), (2000, 3), (2000, 3), (1482, 0), (1482, 0), (1482, 2)]
   \<and> filter (\<lambda>x. fst x = 1482) (sort_reverse fst (expand [(1482, 2), (2000, 1), (1482, 1), (2000, 2)]))
     = [(1482, 0), (1482, 0), (1482, 2)]"
proof -
  have e: "expand [(1482, 2), (2000, 1), (1482, 1), (2000, 2)]
      = [(1482, 0), (1482, 0), (2000, 1), (1482, 2), (2000, 3), (2000, 3)]"
    by code_simp
  have s: "sort_reverse fst (expand [(1482, 2), (2000, 1), (1482, 1), (2000, 2)])
     = [(2000, 1), (2000, 3), (2000, 3), (1482, 0), (1482, 0), (1482, 2)]"
    by code_simp
  from stable_descending_sort[of "[(1482, 2), (2000, 1), (1482, 1), (2000, 2)]" 5000]
  have "filter (\<lambda>x. fst x = 1482) (sort_reverse fst (expand [(1482, 2), (2000, 1), (1482, 1), (2000, 2)]))
      = filter (\<lambda>x. fst x = 1482) (expand [(1482, 2), (2000, 1), (1482, 1), (2000, 2)])"
    by blast
  also have "\<dots> = [(1482, 0), (1482, 0), (1482, 2)]"
    unfolding e by simp
  finally show ?thesis using s by simp
qed

subsection \<open>The first part of the first rod\<close>

lemma first_part_place:
  assumes "rods \<noteq> []" "parts (hd rods) \<noteq> []"
  shows "place stock rods p \<noteq> [] \<and> parts (hd (place stock rods p)) \<noteq> []
       \<and> rod_id (hd (place stock rods p)) = rod_id (hd rods)
       \<and> hd (parts (hd (place stock rods p))) = hd (parts (hd rods))"
proof (cases rule: place_cases[of rods p stock])
  case new
  with assms show ?thesis by simp
next
  case (fit as r bs)
  with assms show ?thesis by (cases as) (simp_all add: add_part_def)
qed

lemma first_part_pack:
  "pack stock (p # items) \<noteq> [] \<and> parts (hd (pack stock (p # items))) \<noteq> []
     \<and> rod_id (hd (pack stock (p # items))) = 1
     \<and> hd (parts (hd (pack stock (p # items)))) = p"
proof (induction items rule: rev_induct)
  case Nil
  then show ?case by (simp add: pack_def place_def new_rod_def)
next
  case (snoc q items)
  have "pack stock (p # items @ [q]) = place stock (pack stock (p # items)) q"
    using pack_snoc[of stock "p # items" q] by simp
  with snoc first_part_place[of "pack stock (p # items)" stock q] show ?case by simp
qed

lemma hd_sort_reverse:
  assumes "xs \<noteq> []"
  shows "\<exists>us vs. xs = us @ hd (sort_reverse key xs) # vs
           \<and> (\<forall>u\<in>set us. key u < key (hd (sort_reverse key xs)))
           \<and> (\<forall>x\<in>set xs. key x \<le> key (hd (sort_reverse key xs)))"
proof -
  let ?ys = "sort_reverse key xs"
  from assms have ne: "?ys \<noteq> []"
    by (metis mset_sort_reverse mset_zero_iff)
  then obtain y ys where ys: "?ys = y # ys" by (cases ?ys) auto
  have "sorted_wrt (\<lambda>a b. key b \<le> key a) (y # ys)"
    using sort_reverse_descending[of key xs] by (simp add: ys)
  then have "\<forall>x\<in>set (y # ys). key x \<le> key y" by auto
  moreover have "set xs = set (y # ys)"
    by (metis set_sort_reverse ys)
  ultimately have le: "\<forall>x\<in>set xs. key x \<le> key y"
    by blast
  have "filter (\<lambda>x. key x = key y) xs = filter (\<lambda>x. key x = key y) ?ys"
    by (simp add: sort_reverse_stable)
  also have "\<dots> = y # filter (\<lambda>x. key x = key y) ys"
    by (simp add: ys)
  finally obtain us vs where "xs = us @ y # vs" "\<forall>u\<in>set us. key u \<noteq> key y"
    unfolding filter_eq_Cons_iff by blast
  moreover from this le have "\<forall>u\<in>set us. key u < key y"
    by (auto simp: less_le)
  moreover have "hd ?ys = y" by (simp add: ys)
  ultimately show ?thesis using le by metis
qed

lemma expand_nonempty:
  "expand demands \<noteq> [] \<longleftrightarrow> (\<exists>d\<in>set demands. 1 \<le> snd d)"
proof -
  have "length (expand demands) = (\<Sum>d\<leftarrow>demands. nat (snd d))"
    unfolding expand_def by (rule length_expand_enum)
  moreover have "(\<Sum>d\<leftarrow>demands. nat (snd d)) \<noteq> 0 \<longleftrightarrow> (\<exists>d\<in>set demands. 1 \<le> snd d)"
    by (induction demands) auto
  ultimately show ?thesis by (metis length_0_conv)
qed

text \<open>
  C6 (descending consumption order). When some demand has a quantity of at least one,
  the result has a first rod, its sequence number is 1, and the first part on it is a
  part of the expansion that no part of the expansion exceeds in length and that
  stands, in the expansion, before every other part of that maximal length: the parts
  before it are all strictly shorter.
\<close>

theorem descending_consumption_order:
  assumes "\<exists>d\<in>set demands. 1 \<le> snd d"
  shows "pack_demands stock_length demands \<noteq> []
       \<and> rod_id (pack_demands stock_length demands ! 0) = 1
       \<and> parts (pack_demands stock_length demands ! 0) \<noteq> []
       \<and> (\<forall>x\<in>set (expand demands). fst x \<le> fst (parts (pack_demands stock_length demands ! 0) ! 0))
       \<and> (\<exists>k<length (expand demands).
             expand demands ! k = parts (pack_demands stock_length demands ! 0) ! 0
           \<and> (\<forall>j<k. fst (expand demands ! j) < fst (expand demands ! k)))"
proof -
  let ?xs = "expand demands"
  let ?items = "sort_reverse fst ?xs"
  let ?rods = "pack_demands stock_length demands"
  from assms have xs: "?xs \<noteq> []" by (simp add: expand_nonempty)
  then have "?items \<noteq> []" by (metis mset_sort_reverse mset_zero_iff)
  then obtain p rest where items: "?items = p # rest" by (cases ?items) auto
  from first_part_pack[of stock_length p rest]
  have rods: "?rods \<noteq> []" "parts (hd ?rods) \<noteq> []" "rod_id (hd ?rods) = 1" "hd (parts (hd ?rods)) = p"
    by (simp_all add: pack_demands_def items)
  then have first: "parts (?rods ! 0) ! 0 = p" "rod_id (?rods ! 0) = 1" "parts (?rods ! 0) \<noteq> []"
    by (simp_all add: hd_conv_nth)
  from hd_sort_reverse[OF xs, of fst] obtain us vs where
    d: "?xs = us @ p # vs" "\<forall>u\<in>set us. fst u < fst p" "\<forall>x\<in>set ?xs. fst x \<le> fst p"
    by (auto simp: items)
  have "length us < length ?xs" "?xs ! length us = p"
    by (simp_all add: d(1))
  moreover have "\<forall>j<length us. fst (?xs ! j) < fst (?xs ! length us)"
    using d(2) by (simp add: d(1) nth_append)
  ultimately have "\<exists>k<length ?xs. ?xs ! k = p \<and> (\<forall>j<k. fst (?xs ! j) < fst (?xs ! k))"
    by blast
  with rods(1) first d(3) show ?thesis by simp
qed

theorem descending_consumption_order_witness:
  "list_ex (\<lambda>d. 1 \<le> snd d) ([(1482, 2), (2000, 0), (1700, 1), (1700, 2)] :: demand list)
   \<and> rod_id (pack_demands 5000 [(1482, 2), (2000, 0), (1700, 1), (1700, 2)] ! 0) = 1
   \<and> parts (pack_demands 5000 [(1482, 2), (2000, 0), (1700, 1), (1700, 2)] ! 0) ! 0 = (1700, 2)"
proof -
  define ds :: "demand list" where "ds = [(1482, 2), (2000, 0), (1700, 1), (1700, 2)]"
  have h: "\<exists>d\<in>set ds. 1 \<le> snd d" by (simp add: ds_def)
  have e: "expand ds = [(1482, 0), (1482, 0), (1700, 2), (1700, 3), (1700, 3)]"
    unfolding ds_def by code_simp
  from descending_consumption_order[OF h, of 5000]
  obtain k where k: "k < length (expand ds)" "expand ds ! k = parts (pack_demands 5000 ds ! 0) ! 0"
     "\<forall>j<k. fst (expand ds ! j) < fst (expand ds ! k)"
     "\<forall>x\<in>set (expand ds). fst x \<le> fst (parts (pack_demands 5000 ds ! 0) ! 0)"
     and id: "rod_id (pack_demands 5000 ds ! 0) = 1"
    by blast
  from k(2,4) have mx: "\<forall>x\<in>set (expand ds). fst x \<le> fst (expand ds ! k)"
    by simp
  from k(1) have "k = 0 \<or> k = 1 \<or> k = 2 \<or> k = 3 \<or> k = 4"
    unfolding e by auto
  moreover have "k \<noteq> 0"
  proof
    assume "k = 0"
    with mx show False unfolding e by simp
  qed
  moreover have "k \<noteq> 1"
  proof
    assume "k = 1"
    with mx show False unfolding e by simp
  qed
  moreover have "k \<noteq> 3" "k \<noteq> 4"
    using k(3) unfolding e by (auto dest: spec[of _ 2])
  ultimately have "k = 2" by blast
  with k(2) have "parts (pack_demands 5000 ds ! 0) ! 0 = (1700, 2)"
    unfolding e by simp
  with id h show ?thesis unfolding ds_def by (simp add: list_ex_iff)
qed

subsection \<open>Order within a rod and rod numbering\<close>

lemma set_subseq: "subseq xs ys \<Longrightarrow> set xs \<subseteq> set ys"
  by (induction xs ys rule: list_emb.induct) auto

lemma sorted_wrt_subseq:
  "subseq xs ys \<Longrightarrow> sorted_wrt R ys \<Longrightarrow> sorted_wrt R xs"
proof (induction xs ys rule: list_emb.induct)
  case (list_emb_Nil ys)
  then show ?case by simp
next
  case (list_emb_Cons xs ys y)
  then show ?case by simp
next
  case (list_emb_Cons2 x y xs ys)
  from list_emb_Cons2.hyps(2) have sub: "set xs \<subseteq> set ys"
    by (rule set_subseq)
  from list_emb_Cons2.prems have all: "\<forall>z\<in>set ys. R y z" and srt: "sorted_wrt R ys"
    by simp_all
  from list_emb_Cons2.hyps(1) have xy: "x = y" .
  from sub all have "\<forall>z\<in>set xs. R x z" unfolding xy by blast
  moreover from srt have "sorted_wrt R xs" by (rule list_emb_Cons2.IH)
  ultimately show ?case by simp
qed

lemma subseq_place:
  assumes "\<forall>r\<in>set rods. subseq (parts r) items"
  shows "\<forall>r\<in>set (place stock rods p). subseq (parts r) (items @ [p])"
proof -
  have old: "\<forall>r\<in>set rods. subseq (parts r) (items @ [p])"
    using assms subseq_rev_drop_many by blast
  show ?thesis
  proof (cases rule: place_cases[of rods p stock])
    case new
    have "subseq (parts (new_rod stock p rods)) (items @ [p])"
      by (simp add: new_rod_def subseq_singleton_left)
    with old show ?thesis unfolding new(2) by simp
  next
    case (fit as r bs)
    from assms fit(1) have "subseq (parts r) items" by simp
    then have "subseq (parts r @ [p]) (items @ [p])"
      by (rule list_emb_append_mono) simp
    then have "subseq (parts (add_part stock p r)) (items @ [p])"
      by (simp only: parts_add_part)
    moreover from old fit(1) have "\<forall>a\<in>set as. subseq (parts a) (items @ [p])"
      "\<forall>b\<in>set bs. subseq (parts b) (items @ [p])" by simp_all
    ultimately show ?thesis unfolding fit(4) by auto
  qed
qed

lemma subseq_pack: "\<forall>r\<in>set (pack stock items). subseq (parts r) items"
proof (induction items rule: rev_induct)
  case Nil
  then show ?case by (simp add: pack_Nil)
next
  case (snoc p items)
  then show ?case unfolding pack_snoc by (rule subseq_place)
qed

lemma rod_ids_place:
  assumes "map rod_id rods = [1..<Suc (length rods)]"
  shows "map rod_id (place stock rods p) = [1..<Suc (length (place stock rods p))]"
proof (cases rule: place_cases[of rods p stock])
  case new
  with assms show ?thesis by (simp add: new_rod_def)
next
  case (fit as r bs)
  then have "map rod_id (place stock rods p) = map rod_id rods"
    by (simp add: rod_id_add_part)
  moreover from fit have "length (place stock rods p) = length rods" by simp
  ultimately show ?thesis using assms by simp
qed

lemma rod_ids_pack: "map rod_id (pack stock items) = [1..<Suc (length (pack stock items))]"
proof (induction items rule: rev_induct)
  case Nil
  then show ?case by (simp add: pack_Nil)
next
  case (snoc p items)
  then show ?case unfolding pack_snoc by (rule rod_ids_place)
qed


subsection \<open>No demand, no rod\<close>

lemma pack_eq_Nil: "pack stock items = [] \<longleftrightarrow> items = []"
proof (cases items)
  case Nil
  then show ?thesis by (simp add: pack_Nil)
next
  case (Cons p rest)
  with first_part_pack[of stock p rest] show ?thesis by simp
qed

lemma pack_demands_eq_Nil:
  "pack_demands stock demands = [] \<longleftrightarrow> (\<forall>d\<in>set demands. snd d \<le> 0)"
proof -
  have "pack_demands stock demands = [] \<longleftrightarrow> sort_reverse fst (expand demands) = []"
    by (simp add: pack_demands_def pack_eq_Nil)
  also have "\<dots> \<longleftrightarrow> expand demands = []"
    by (metis mset_sort_reverse mset_zero_iff)
  also have "\<dots> \<longleftrightarrow> \<not> (\<exists>d\<in>set demands. 1 \<le> snd d)"
    using expand_nonempty[of demands] by blast
  also have "\<dots> \<longleftrightarrow> (\<forall>d\<in>set demands. snd d \<le> 0)"
    by auto
  finally show ?thesis .
qed

subsection \<open>The result table\<close>

lemma set_first_occurrences: "set (first_occurrences xs) = set xs"
  by (induction xs) auto

lemma distinct_first_occurrences: "distinct (first_occurrences xs)"
  by (induction xs) (auto simp: distinct_removeAll)

lemma first_occurrences_snoc:
  "first_occurrences (xs @ [k]) = (if k \<in> set xs then first_occurrences xs else first_occurrences xs @ [k])"
  by (induction xs) auto

lemma map_of_graph:
  "map_of (map (\<lambda>x. (x, f x)) xs) k = (if k \<in> set xs then Some (f k) else None)"
  by (induction xs) auto

lemma dict_set_new:
  "k \<notin> set xs \<Longrightarrow> dict_set k v (map (\<lambda>x. (x, f x)) xs) = map (\<lambda>x. (x, f x)) xs @ [(k, v)]"
  by (induction xs) auto

lemma dict_set_last:
  "k \<notin> set xs \<Longrightarrow>
     dict_set k v (map (\<lambda>x. (x, f x)) xs @ [(k, w)]) = map (\<lambda>x. (x, f x)) xs @ [(k, v)]"
  by (induction xs) auto

lemma dict_set_old:
  "distinct xs \<Longrightarrow> k \<in> set xs \<Longrightarrow>
     dict_set k v (map (\<lambda>x. (x, f x)) xs) = map (\<lambda>x. (x, if x = k then v else f x)) xs"
proof (induction xs)
  case Nil
  then show ?case by simp
next
  case (Cons x xs)
  show ?case
  proof (cases "x = k")
    case True
    with Cons.prems have "k \<notin> set xs" by simp
    then have "map (\<lambda>x. (x, if x = k then v else f x)) xs = map (\<lambda>x. (x, f x)) xs"
      by (intro map_cong) auto
    with True show ?thesis by simp
  next
    case False
    with Cons show ?thesis by simp
  qed
qed

lemma count_part_groups:
  "count_part (part_groups ps) p = Inr (part_groups (ps @ [p]))"
proof -
  obtain l i where p: "p = (l, i)" by (cases p)
  define ks where "ks = map (\<lambda>(length, idx). (idx, length)) ps"
  let ?k = "(i, l)"
  let ?G = "map (\<lambda>k. (k, count_list ks k)) (first_occurrences ks)"
  have G: "part_groups ps = ?G"
    by (simp add: part_groups_def ks_def Let_def)
  have G': "part_groups (ps @ [p]) =
      map (\<lambda>k. (k, count_list (ks @ [?k]) k)) (first_occurrences (ks @ [?k]))"
    by (simp add: part_groups_def ks_def p Let_def)
  have look: "map_of ?G ?k = (if ?k \<in> set ks then Some (count_list ks ?k) else None)"
    by (simp add: map_of_graph set_first_occurrences)
  show ?thesis
  proof (cases "?k \<in> set ks")
    case True
    then have in_fo: "?k \<in> set (first_occurrences ks)"
      by (simp add: set_first_occurrences)
    from True look have "count_part ?G p
        = Inr (dict_set ?k (count_list ks ?k + 1) ?G)"
      by (simp add: count_part_def p dict_get_def Let_def)
    also have "dict_set ?k (count_list ks ?k + 1) ?G
        = map (\<lambda>k. (k, if k = ?k then count_list ks ?k + 1 else count_list ks k)) (first_occurrences ks)"
      using distinct_first_occurrences in_fo by (rule dict_set_old)
    also have "\<dots> = map (\<lambda>k. (k, count_list (ks @ [?k]) k)) (first_occurrences ks)"
      by (intro map_cong) auto
    also have "\<dots> = part_groups (ps @ [p])"
      using True by (simp add: G' first_occurrences_snoc)
    finally show ?thesis by (simp add: G)
  next
    case False
    then have out_fo: "?k \<notin> set (first_occurrences ks)"
      by (simp add: set_first_occurrences)
    have one: "dict_set ?k 0 ?G = ?G @ [(?k, 0)]"
      using out_fo by (rule dict_set_new)
    have get: "dict_get (?G @ [(?k, 0)]) ?k = Inr 0"
      using False look by (simp add: dict_get_def map_add_def)
    have two: "dict_set ?k (Suc 0) (?G @ [(?k, 0)]) = ?G @ [(?k, Suc 0)]"
      using out_fo by (rule dict_set_last)
    from False look have "count_part ?G p = Inr (?G @ [(?k, Suc 0)])"
      by (simp add: count_part_def p one get two Let_def)
    also have "?G @ [(?k, Suc 0)]
        = map (\<lambda>k. (k, count_list (ks @ [?k]) k)) (first_occurrences ks) @ [(?k, count_list (ks @ [?k]) ?k)]"
      using False out_fo by (auto simp: count_list_0_iff)
    also have "\<dots> = part_groups (ps @ [p])"
      using False by (simp add: G' first_occurrences_snoc)
    finally show ?thesis by (simp add: G)
  qed
qed

lemma count_parts_snoc:
  "count_parts pc (ps @ [p]) =
     (case count_parts pc ps of Inl e \<Rightarrow> Inl e | Inr pc' \<Rightarrow> count_part pc' p)"
  by (induction ps arbitrary: pc) (auto split: sum.splits)

lemma count_parts_groups: "count_parts [] ps = Inr (part_groups ps)"
proof (induction ps rule: rev_induct)
  case Nil
  then show ?case by (simp add: part_groups_def Let_def)
next
  case (snoc p ps)
  then show ?case by (simp add: count_parts_snoc count_part_groups)
qed

lemma result_row_summary: "result_row r = Inr (summary_row r)"
  by (simp add: result_row_def count_parts_groups summary_row_def parts_str_def
      format_group_def int_of_length_def)

lemma result_data_summary: "result_data rods = Inr (map summary_row rods)"
  by (induction rods) (simp_all add: result_row_summary)

lemma first_fit_decreasing_summary:
  "first_fit_decreasing stock demands = Inr (map summary_row (pack_demands stock demands))"
  by (simp add: first_fit_decreasing_def result_data_summary)



subsection \<open>Rods of the result: order of parts and numbering\<close>

text \<open>
  C10 (order within a rod, rod numbering). The parts of every rod of the result form a
  subsequence of the descending sorted part list and so are themselves in
  non-increasing order of length; the rod identifiers, and the sequence numbers of the
  result rows, are 1, 2, ..., n in output order.
\<close>

theorem rods_descending_and_numbered:
  "(\<forall>r\<in>set (pack_demands stock_length demands).
       subseq (parts r) (sort_reverse fst (expand demands))
     \<and> sorted_wrt (\<lambda>a b. fst b \<le> fst a) (parts r))
   \<and> map rod_id (pack_demands stock_length demands)
        = [1..<Suc (length (pack_demands stock_length demands))]
   \<and> (\<forall>k<length (pack_demands stock_length demands).
        rod_id (pack_demands stock_length demands ! k) = k + 1)
   \<and> (\<exists>rows. first_fit_decreasing stock_length demands = Inr rows
        \<and> map stange rows = [1..<Suc (length rows)])"
proof -
  let ?rods = "pack_demands stock_length demands"
  have a: "\<forall>r\<in>set ?rods. subseq (parts r) (sort_reverse fst (expand demands))
     \<and> sorted_wrt (\<lambda>a b. fst b \<le> fst a) (parts r)"
  proof
    fix r assume "r \<in> set ?rods"
    with subseq_pack[of stock_length "sort_reverse fst (expand demands)"]
    have s: "subseq (parts r) (sort_reverse fst (expand demands))"
      unfolding pack_demands_def by blast
    from s sort_reverse_descending[of fst "expand demands"]
    have "sorted_wrt (\<lambda>a b. fst b \<le> fst a) (parts r)"
      by (rule sorted_wrt_subseq)
    with s show "subseq (parts r) (sort_reverse fst (expand demands))
     \<and> sorted_wrt (\<lambda>a b. fst b \<le> fst a) (parts r)" by simp
  qed
  have b: "map rod_id ?rods = [1..<Suc (length ?rods)]"
    unfolding pack_demands_def by (rule rod_ids_pack)
  have c: "\<forall>k<length ?rods. rod_id (?rods ! k) = k + 1"
  proof (intro allI impI)
    fix k assume k: "k < length ?rods"
    then have "rod_id (?rods ! k) = map rod_id ?rods ! k" by simp
    also have "\<dots> = [1..<Suc (length ?rods)] ! k" by (simp only: b)
    also have "\<dots> = k + 1" using k by (simp del: upt_Suc)
    finally show "rod_id (?rods ! k) = k + 1" .
  qed
  have "map stange (map summary_row ?rods) = map rod_id ?rods"
    by (simp add: summary_row_def comp_def)
  then have "map stange (map summary_row ?rods) = [1..<Suc (length (map summary_row ?rods))]"
    using b by simp
  then have d: "\<exists>rows. first_fit_decreasing stock_length demands = Inr rows
        \<and> map stange rows = [1..<Suc (length rows)]"
    using first_fit_decreasing_summary[of stock_length demands] by blast
  from a b c d show ?thesis by blast
qed

theorem rods_descending_and_numbered_witness:
  "map rod_id (pack_demands 5000 [(1482, 2), (2000, 3)]) = [1, 2]
   \<and> list_all (\<lambda>r. sorted_wrt (\<lambda>a b. fst b \<le> fst a) (parts r))
        (pack_demands 5000 [(1482, 2), (2000, 3)])
   \<and> map parts (pack_demands 5000 [(1482, 2), (2000, 3)])
        = [[(2000, 1), (2000, 1)], [(2000, 1), (1482, 0), (1482, 0)]]"
proof -
  define ds :: "demand list" where "ds = [(1482, 2), (2000, 3)]"
  note t = rods_descending_and_numbered[of 5000 ds]
  have p: "map parts (pack_demands 5000 ds) = [[(2000, 1), (2000, 1)], [(2000, 1), (1482, 0), (1482, 0)]]"
    unfolding ds_def by code_simp
  then have "length (map parts (pack_demands 5000 ds)) = 2"
    by simp
  then have n: "length (pack_demands 5000 ds) = 2"
    by simp
  have u: "[1..<Suc 2] = [1, 2]" by (simp add: upt_rec)
  from t have "map rod_id (pack_demands 5000 ds) = [1..<Suc (length (pack_demands 5000 ds))]"
    by blast
  then have a: "map rod_id (pack_demands 5000 ds) = [1, 2]"
    unfolding n u .
  from t have "\<forall>r\<in>set (pack_demands 5000 ds). sorted_wrt (\<lambda>a b. fst b \<le> fst a) (parts r)"
    by blast
  then have c: "list_all (\<lambda>r. sorted_wrt (\<lambda>a b. fst b \<le> fst a) (parts r)) (pack_demands 5000 ds)"
    by (simp add: list_all_iff)
  from a c p show ?thesis unfolding ds_def by blast
qed

subsection \<open>The empty result\<close>

text \<open>
  C7 (empty demand set). With no demands the result has no rows, and so it has when
  every demand has quantity zero; in general the result is empty exactly when no demand
  has a quantity of at least one. In each of these cases the function returns its (empty)
  list of rows; it raises no exception.
\<close>

theorem empty_demand_set:
  "first_fit_decreasing stock_length [] = Inr []
   \<and> ((\<forall>d\<in>set demands. snd d = 0) \<longrightarrow> first_fit_decreasing stock_length demands = Inr [])
   \<and> (first_fit_decreasing stock_length demands = Inr [] \<longleftrightarrow> (\<forall>d\<in>set demands. snd d \<le> 0))"
proof -
  have e: "first_fit_decreasing stock_length ds = Inr [] \<longleftrightarrow> (\<forall>d\<in>set ds. snd d \<le> 0)" for ds
    by (simp add: first_fit_decreasing_summary pack_demands_eq_Nil)
  have "first_fit_decreasing stock_length [] = Inr []"
    by (simp add: e)
  moreover have "(\<forall>d\<in>set demands. snd d = 0) \<longrightarrow> first_fit_decreasing stock_length demands = Inr []"
    by (simp add: e)
  ultimately show ?thesis using e[of demands] by blast
qed

theorem empty_demand_set_witness:
  "list_all (\<lambda>d. snd d = 0) ([(1000, 0), (2000, 0)] :: demand list)
   \<and> first_fit_decreasing 5000 [(1000, 0), (2000, 0)] = Inr []
   \<and> first_fit_decreasing 5000 [] = Inr []"
proof -
  have h: "\<forall>d\<in>set ([(1000, 0), (2000, 0)] :: demand list). snd d = 0" by simp
  from empty_demand_set[of 5000 "[(1000, 0), (2000, 0)]"] h
  have "first_fit_decreasing 5000 [(1000, 0), (2000, 0)] = Inr []" by blast
  moreover from empty_demand_set[of 5000 "[]"] have "first_fit_decreasing 5000 [] = Inr []" by blast
  ultimately show ?thesis by simp
qed

subsection \<open>Parts longer than the stock\<close>







subsection \<open>Totality\<close>






subsection \<open>The scenarios of the specification and inputs outside its data model\<close>

lemma scenario_A:
  "map (\<lambda>r. (rod_id r, used_length r, leftover r, parts r)) (pack_demands 5000 [(1002, 3)])
     = [(1, 3006, 1994, [(1002, 0), (1002, 0), (1002, 0)])]"
  by code_simp

lemma scenario_B:
  "map (\<lambda>r. (rod_id r, used_length r, leftover r, parts r)) (pack_demands 5000 [(2502, 1), (2502, 1)])
     = [(1, 2502, 2498, [(2502, 0)]), (2, 2502, 2498, [(2502, 1)])]"
  by code_simp

text \<open>
  With a length that is not positive, a part can join the rod of a part longer than the
  stock; with a negative quantity, a demand yields no part. Neither input is a demand of
  the data model, and the caller cannot produce it.
\<close>

lemma negative_length_joins_oversized_rod:
  "map (\<lambda>r. (leftover r, parts r)) (pack_demands 10 [(15, 1), (- 6, 1)])
     = [(1, [(15, 0), (- 6, 1)])]"
  by code_simp

lemma negative_quantity_expands_to_nothing: "expand [(5, - 2)] = []"
  by code_simp

end
